theory Spec2Isabelle
  imports Main "HOL-Library.Sublist"
begin

section \<open>Strings\<close>

text \<open>
  A Python \<open>str\<close> is modelled as a \<open>string\<close>; a \<open>char\<close> stands for a code point below 256.
  \<open>is_space\<close> is the whitespace class shared by \<open>str.strip()\<close> and the regular expression
  class \<open>\s\<close>: the code points 9 to 13, 28 to 32, 133 and 160.
\<close>

definition is_space :: "char \<Rightarrow> bool" where
  "is_space c = (of_char c \<in> {9, 10, 11, 12, 13, 28, 29, 30, 31, 32, 133, 160 :: nat})"

text \<open>\<open>s.strip()\<close>: whitespace is dropped at both ends.\<close>

definition strip :: "string \<Rightarrow> string" where
  "strip s = rev (dropWhile is_space (rev (dropWhile is_space s)))"

text \<open>\<open>s.replace(old, new)\<close> for one-character \<open>old\<close> and \<open>new\<close>.\<close>

definition replace_char :: "char \<Rightarrow> char \<Rightarrow> string \<Rightarrow> string" where
  "replace_char old new s = map (\<lambda>c. if c = old then new else c) s"

text \<open>
  \<open>re.sub(r'\s+', ' ', s)\<close>: scanning from the left, every maximal run of whitespace
  becomes one blank.
\<close>

function re_sub_ws :: "string \<Rightarrow> string" where
  "re_sub_ws [] = []"
| "re_sub_ws (c # cs) =
     (if is_space c then CHR '' '' # re_sub_ws (dropWhile is_space cs)
      else c # re_sub_ws cs)"
  by pat_completeness auto
termination
  by (relation "measure length") (auto simp: less_Suc_eq_le length_dropWhile_le)

text \<open>
  \<open>s.lower()\<close> on code points below 256: the letters A to Z and the upper-case letters
  of the range 192 to 222 (215, the multiplication sign, apart) move up by 32.
\<close>

definition lower_char :: "char \<Rightarrow> char" where
  "lower_char c =
     (let n = (of_char c :: nat)
      in if (65 \<le> n \<and> n \<le> 90) \<or> (192 \<le> n \<and> n \<le> 222 \<and> n \<noteq> 215)
         then char_of (n + 32) else c)"

definition lower :: "string \<Rightarrow> string" where
  "lower s = map lower_char s"

text \<open>\<open>sub in s\<close> on strings: \<open>sub\<close> occurs in \<open>s\<close> as a contiguous block.\<close>

definition str_in :: "string \<Rightarrow> string \<Rightarrow> bool" where
  "str_in sub s = sublist sub s"

text \<open>
  \<open>re.findall(r'https?://[^\s"'<>]+', text)\<close>. \<open>match_url_at\<close> is one match attempt at
  the start of its argument: the scheme, then the longest non-empty run of characters that
  are neither whitespace nor one of \<open>" ' < >\<close>. \<open>findall_urls\<close> scans from the left and
  resumes behind each match.
\<close>

definition url_char :: "char \<Rightarrow> bool" where
  "url_char c = (\<not> is_space c \<and> c \<noteq> CHR 0x22 \<and> c \<noteq> CHR 0x27 \<and> c \<noteq> CHR ''<'' \<and> c \<noteq> CHR ''>'')"

definition match_url_at :: "string \<Rightarrow> string option" where
  "match_url_at s =
     (let scheme = (if prefix ''https://'' s then Some ''https://''
                    else if prefix ''http://'' s then Some ''http://'' else None)
      in case scheme of
           None \<Rightarrow> None
         | Some p \<Rightarrow>
             (let body = takeWhile url_char (drop (length p) s)
              in if body = [] then None else Some (p @ body)))"

function findall_urls :: "string \<Rightarrow> string list" where
  "findall_urls [] = []"
| "findall_urls (c # cs) =
     (case match_url_at (c # cs) of
        None \<Rightarrow> findall_urls cs
      | Some m \<Rightarrow> m # findall_urls (drop (length m - 1) cs))"
  by pat_completeness auto
termination
  by (relation "measure length") auto

section \<open>Configuration\<close>


text \<open>The dictionary literal \<open>COMPANY_KEYWORDS\<close>, as the list of its items (the keys are distinct).\<close>

definition COMPANY_KEYWORDS :: "(string \<times> string list) list" where
  "COMPANY_KEYWORDS =
     [(''https://www.apple.com'', [''business'', ''newsroom'', ''compliance'']),
      (''https://www.toyota-global.com'',
         [''executives'', ''global-vision'', ''company'', ''financial-results'', ''profile'']),
      (''https://www.jpmorganchase.com'',
         [''leadership'', ''awards-and-recognition'', ''our-history'', ''suppliers'',
          ''business-principles'']),
      (''https://www.pfizer.com'',
         [''product-list'', ''executives'', ''history'', ''purpose'', ''global-impact'']),
      (''https://www.thewaltdisneycompany.com'',
         [''our-businesses'', ''news'', ''social-impact'', ''about'']),
      (''https://www.shell.com'',
         [''who-we-are'', ''our-values'', ''our-history'', ''news-and-insights'']),
      (''https://www.siemens.com'',
         [''products.html'', ''management.html'', ''telegraphy-and-telex.html'',
          ''system-and-method-for-robotic-picking.html'',
          ''technology-to-transform-the-everyday.html'']),
      (''https://www.samsung.com/in/'',
         [''company-info'', ''business-area'', ''brand-identity'', ''environment'']),
      (''https://www.nike.com'', [''about'', ''investors'', ''sustainability''])]"

text \<open>\<open>COMPANY_KEYWORDS.get(url, [])\<close>.\<close>

definition keywords_get :: "string \<Rightarrow> string list" where
  "keywords_get url = (case map_of COMPANY_KEYWORDS url of None \<Rightarrow> [] | Some ks \<Rightarrow> ks)"

definition marker :: string where
  "marker = ''Information Not Available''"

definition has_marker :: "string \<Rightarrow> bool" where
  "has_marker extracted_info = str_in marker extracted_info"

definition failure_text :: string where
  "failure_text = ''Failed to fetch content.''"

section \<open>Parsed documents\<close>

text \<open>
  The element tree that the HTML parser library builds. \<open>Text\<close> is a string of the page
  proper, \<open>Comment\<close> stands for the string kinds that text extraction leaves out (comments,
  declarations, doctypes), and \<open>Tag name attrs children\<close> is an element; \<open>attrs\<close> lists the
  items of its attribute dictionary. A parsed document (the soup) is the list of the
  top-level nodes.
\<close>

datatype node = Text string | Comment string | Tag string "(string \<times> string) list" "node list"

type_synonym soup = "node list"

text \<open>
  \<open>tag.decompose()\<close> for every element found by \<open>soup(names)\<close>: the elements with one of
  the names disappear from the tree with everything below them.
\<close>

fun remove_tags :: "string list \<Rightarrow> node \<Rightarrow> node list" where
  "remove_tags names (Text s) = [Text s]"
| "remove_tags names (Comment s) = [Comment s]"
| "remove_tags names (Tag n attrs kids) =
     (if n \<in> set names then [] else [Tag n attrs (concat (map (remove_tags names) kids))])"

definition decompose_all :: "string list \<Rightarrow> soup \<Rightarrow> soup" where
  "decompose_all names doc = concat (map (remove_tags names) doc)"

text \<open>
  \<open>soup.find_all('a', href=True)\<close>, read through \<open>a['href']\<close>: the destinations of the
  \<open>a\<close> elements that carry an \<open>href\<close> attribute, in document order.
\<close>

fun find_all_a_href :: "node \<Rightarrow> string list" where
  "find_all_a_href (Text s) = []"
| "find_all_a_href (Comment s) = []"
| "find_all_a_href (Tag n attrs kids) =
     (case (if n = ''a'' then map_of attrs ''href'' else None) of
        None \<Rightarrow> concat (map find_all_a_href kids)
      | Some h \<Rightarrow> h # concat (map find_all_a_href kids))"

definition hrefs :: "soup \<Rightarrow> string list" where
  "hrefs doc = concat (map find_all_a_href doc)"

text \<open>
  The loop \<open>for a in soup.find_all('a', href=True): a.insert_after(f" ({a['href']})")\<close>.
  The list of elements is computed before the first insertion, and each insertion adds one
  string as the next sibling of its element, so the loop amounts to one pass over the tree
  that puts the string behind every such element, at every depth.
\<close>

fun insert_after_links :: "node \<Rightarrow> node list" where
  "insert_after_links (Text s) = [Text s]"
| "insert_after_links (Comment s) = [Comment s]"
| "insert_after_links (Tag n attrs kids) =
     (case (if n = ''a'' then map_of attrs ''href'' else None) of
        None \<Rightarrow> [Tag n attrs (concat (map insert_after_links kids))]
      | Some h \<Rightarrow>
          [Tag n attrs (concat (map insert_after_links kids)), Text ('' ('' @ h @ '')'')])"

definition inline_links :: "soup \<Rightarrow> soup" where
  "inline_links doc = concat (map insert_after_links doc)"

text \<open>
  \<open>soup.get_text(separator=' ', strip=True)\<close>: the strings of the page in document order,
  each stripped, the empty ones dropped, joined by one blank.
\<close>

fun all_strings :: "node \<Rightarrow> string list" where
  "all_strings (Text s) = (if strip s = [] then [] else [strip s])"
| "all_strings (Comment s) = []"
| "all_strings (Tag n attrs kids) = concat (map all_strings kids)"

fun join_blank :: "string list \<Rightarrow> string" where
  "join_blank [] = []"
| "join_blank [x] = x"
| "join_blank (x # y # ys) = x @ '' '' @ join_blank (y # ys)"

definition get_text :: "soup \<Rightarrow> string" where
  "get_text doc = join_blank (concat (map all_strings doc))"

section \<open>The outside world\<close>

text \<open>
  The web, the language model and the file system are outside the program. Their state is
  a value of an arbitrary type \<open>'w\<close>, and an environment gives what each library call does:
  \<^item> \<open>http_get url w\<close>: \<open>requests.get\<close> with \<open>raise_for_status\<close>, with the outcomes listed
    in \<open>response\<close>: the body of the response, a \<open>RequestException\<close> (network error, timeout,
    error status), or an exception of another class (an address that cannot be parsed, for
    one);
  \<^item> \<open>html_parser body\<close>: \<open>BeautifulSoup(body, 'html.parser')\<close>; \<open>None\<close> when the constructor
    raises;
  \<^item> \<open>generate_content prompt w\<close>: the three statements of the \<open>try\<close> block of
    \<open>call_gemini_api\<close>, with the outcomes listed in \<open>outcome\<close>;
  \<^item> \<open>urljoin base href\<close>: \<open>urllib.parse.urljoin\<close>; \<open>None\<close> when it raises \<open>ValueError\<close> (as it
    does for \<open>http://[about\<close>, a host with an opening bracket that is never closed);
  \<^item> \<open>set_rank\<close>: Python does not fix the order in which a set is enumerated. The set built
    from the elements \<open>xs\<close> is enumerated by increasing \<open>set_rank xs\<close>; every order of
    every set is the order of some rank;
  \<^item> \<open>to_csv filename rows w\<close>: \<open>pandas.DataFrame(rows).to_csv(filename, ...)\<close>; \<open>False\<close>
    when it raises.
  The library calls return or raise as listed here; an interrupt of the process is not
  modelled.
\<close>

datatype response = Body string | Request_exception | Other_exception

datatype outcome = Raised | Falsy_response | Response_text string

record 'w env =
  http_get :: "string \<Rightarrow> 'w \<Rightarrow> response \<times> 'w"
  html_parser :: "string \<Rightarrow> soup option"
  generate_content :: "string \<Rightarrow> 'w \<Rightarrow> outcome \<times> 'w"
  urljoin :: "string \<Rightarrow> string \<Rightarrow> string option"
  set_rank :: "string list \<Rightarrow> string \<Rightarrow> nat"
  to_csv :: "string \<Rightarrow> (string \<times> string) list \<Rightarrow> 'w \<Rightarrow> bool \<times> 'w"

text \<open>
  The program state is the state of the world and the trace of what the program has done
  so far: a page request with its outcome, a call of the fact extractor with the text it
  was given and the answer it returned, a write of the result file.
\<close>

datatype event =
    Fetch string response
  | Ask string string
  | Save string "(string \<times> string) list" bool

record 'w state =
  world :: 'w
  trace :: "event list"

section \<open>The program\<close>

text \<open>
  An exception that no handler of the program catches ends the function that raised it and
  every caller: such a function returns \<open>Inl\<close> of the exception and the state it left, or
  \<open>Inr\<close> of its value. The exceptions are those of the library calls: \<open>Fetch_error\<close> is an
  exception of the request that is not a \<open>RequestException\<close>, \<open>Parser_error\<close> one of the
  parser's constructor, \<open>ValueError\<close> the one of \<open>urljoin\<close>.
\<close>

datatype uncaught = Fetch_error | Parser_error | ValueError

subsection \<open>\<open>fetch_content\<close>\<close>

text \<open>
  The handler is \<open>except requests.RequestException\<close>, and it covers the request only: the
  parser is called behind the \<open>try\<close> statement.
\<close>

definition fetch_content ::
  "'w env \<Rightarrow> string \<Rightarrow> 'w state
     \<Rightarrow> (uncaught + (soup \<times> string list) option) \<times> 'w state" where
  "fetch_content e url st =
     (case http_get e url (world st) of
        (r, w) \<Rightarrow>
          (let st1 = st\<lparr>world := w, trace := trace st @ [Fetch url r]\<rparr>
           in case r of
                Request_exception \<Rightarrow> (Inr None, st1)
              | Other_exception \<Rightarrow> (Inl Fetch_error, st1)
              | Body body \<Rightarrow>
                  (case html_parser e body of
                     None \<Rightarrow> (Inl Parser_error, st1)
                   | Some doc \<Rightarrow> (Inr (Some (doc, findall_urls body)), st1))))"

subsection \<open>\<open>clean_text\<close>\<close>

definition clean_text :: "string \<Rightarrow> string" where
  "clean_text text =
     strip (re_sub_ws
       (replace_char (CHR 0x0A) (CHR '' '') (replace_char (CHR 0x22) (CHR 0x27) text)))"

subsection \<open>\<open>extract_text\<close>\<close>

text \<open>
  \<open>extract_text\<close> changes the tree it is given. The model returns the text together with
  the tree as the call leaves it; the caller goes on with that tree.
\<close>

definition extract_text :: "soup \<Rightarrow> string \<times> soup" where
  "extract_text doc =
     (let doc1 = decompose_all [''script'', ''style''] doc;
          doc2 = inline_links doc1
      in (get_text doc2, doc2))"

subsection \<open>\<open>call_gemini_api\<close>\<close>

definition prompt :: "string \<Rightarrow> string" where
  "prompt cleaned_text =
     [CHR 0x0A]
     @ ''    Extract the following detailed company information from the provided text:'' @ [CHR 0x0A]
     @ ''    '' @ [CHR 0x0A]
     @ ''    1. What is the company's mission statement or core values?'' @ [CHR 0x0A]
     @ ''    2. What products or services does the company offer?'' @ [CHR 0x0A]
     @ ''    3. When was the company founded, and who were the founders?'' @ [CHR 0x0A]
     @ ''    4. Where is the company's headquarters located?'' @ [CHR 0x0A]
     @ ''    5. Who are the key executives or leadership team members?'' @ [CHR 0x0A]
     @ ''    6. Has the company received any notable awards or recognitions?'' @ [CHR 0x0A]
     @ ''    '' @ [CHR 0x0A]
     @ ''    Provide the output in a CSV-compatible format, ensuring each question is clearly answered.'' @ [CHR 0x0A]
     @ ''    '' @ [CHR 0x0A]
     @ ''    Text: '' @ cleaned_text @ [CHR 0x0A]
     @ ''    ''"

datatype py_exception = Exception

text \<open>The \<open>try\<close> block: it returns a string or raises.\<close>

definition try_generate :: "'w env \<Rightarrow> string \<Rightarrow> 'w \<Rightarrow> (py_exception + string) \<times> 'w" where
  "try_generate e p w =
     (case generate_content e p w of
        (Raised, w') \<Rightarrow> (Inl Exception, w')
      | (Falsy_response, w') \<Rightarrow> (Inr [], w')
      | (Response_text t, w') \<Rightarrow> (Inr t, w'))"

text \<open>The whole function: \<open>except Exception: return ""\<close> around the block.\<close>

definition call_gemini_api :: "'w env \<Rightarrow> string \<Rightarrow> 'w state \<Rightarrow> string \<times> 'w state" where
  "call_gemini_api e cleaned_text st =
     (case try_generate e (prompt cleaned_text) (world st) of
        (r, w) \<Rightarrow>
          (let answer = (case r of Inl Exception \<Rightarrow> [] | Inr t \<Rightarrow> t)
           in (answer, st\<lparr>world := w, trace := trace st @ [Ask cleaned_text answer]\<rparr>)))"

subsection \<open>\<open>extract_relevant_links\<close>\<close>

text \<open>\<open>list(s)\<close> for the set \<open>s\<close> built from the elements \<open>xs\<close>.\<close>

definition list_of_set :: "'w env \<Rightarrow> string list \<Rightarrow> string list" where
  "list_of_set e xs = sort_key (set_rank e xs) (remdups xs)"

definition any_keyword_in :: "string list \<Rightarrow> string \<Rightarrow> bool" where
  "any_keyword_in keywords s = list_ex (\<lambda>k. str_in k (lower s)) keywords"

text \<open>
  The first set comprehension calls \<open>urljoin\<close> for the hyperlinks that pass the keyword
  test, in document order, with no handler around it: the first call that raises ends the
  function (\<open>those\<close> is \<open>None\<close> when one of the calls is).
\<close>

definition extract_relevant_links ::
  "'w env \<Rightarrow> soup \<Rightarrow> string list \<Rightarrow> string \<Rightarrow> string
     \<Rightarrow> uncaught + string list" where
  "extract_relevant_links e doc js_links base_url url =
     (let keywords = keywords_get url
      in case those (map (urljoin e base_url) (filter (any_keyword_in keywords) (hrefs doc))) of
           None \<Rightarrow> Inl ValueError
         | Some links \<Rightarrow>
             Inr (list_of_set e (links @ filter (any_keyword_in keywords) js_links)))"

subsection \<open>\<open>get_company_information\<close>\<close>

text \<open>
  The \<open>for\<close> loop over the relevant links, entered with the text and the answer obtained
  so far; \<open>break\<close> is the return without a recursive call. The tests \<open>if not soup\<close> and
  \<open>if additional_soup\<close> tell \<open>None\<close> from a parsed document: a document object is true
  whatever it contains. Neither the loop nor its caller has a handler, so an exception of
  \<open>fetch_content\<close> or of \<open>extract_relevant_links\<close> ends \<open>get_company_information\<close>.
\<close>

fun fallback_loop ::
  "'w env \<Rightarrow> string list \<Rightarrow> string \<Rightarrow> string \<Rightarrow> 'w state
     \<Rightarrow> (uncaught + string) \<times> 'w state" where
  "fallback_loop e [] cleaned_text extracted_info st = (Inr extracted_info, st)"
| "fallback_loop e (link # links) cleaned_text extracted_info st =
     (case fetch_content e link st of
        (Inl x, st1) \<Rightarrow> (Inl x, st1)
      | (Inr None, st1) \<Rightarrow> fallback_loop e links cleaned_text extracted_info st1
      | (Inr (Some (additional_soup, _)), st1) \<Rightarrow>
          (let cleaned_text' = cleaned_text @ [CHR 0x0A] @ fst (extract_text additional_soup)
           in case call_gemini_api e cleaned_text' st1 of
                (extracted_info', st2) \<Rightarrow>
                  if \<not> has_marker extracted_info' then (Inr extracted_info', st2)
                  else fallback_loop e links cleaned_text' extracted_info' st2))"

definition get_company_information ::
  "'w env \<Rightarrow> string \<Rightarrow> 'w state \<Rightarrow> (uncaught + string) \<times> 'w state" where
  "get_company_information e url st =
     (case fetch_content e url st of
        (Inl x, st1) \<Rightarrow> (Inl x, st1)
      | (Inr None, st1) \<Rightarrow> (Inr failure_text, st1)
      | (Inr (Some (doc, js_links)), st1) \<Rightarrow>
          (case extract_text doc of
             (cleaned_text, doc') \<Rightarrow>
               (case call_gemini_api e cleaned_text st1 of
                  (extracted_info, st2) \<Rightarrow>
                    if has_marker extracted_info
                    then (case extract_relevant_links e doc' js_links url url of
                            Inl x \<Rightarrow> (Inl x, st2)
                          | Inr links \<Rightarrow>
                              fallback_loop e links cleaned_text extracted_info st2)
                    else (Inr extracted_info, st2))))"

subsection \<open>\<open>save_to_csv\<close> and \<open>process_urls\<close>\<close>




section \<open>Vocabulary of the properties\<close>

text \<open>A string has a whitespace run when two neighbouring characters are both whitespace.\<close>

fun has_ws_run :: "string \<Rightarrow> bool" where
  "has_ws_run (a # b # cs) = ((is_space a \<and> is_space b) \<or> has_ws_run (b # cs))"
| "has_ws_run _ = False"

text \<open>The answer that \<open>call_gemini_api\<close> returns for an outcome of the model call.\<close>

definition answer_of :: "outcome \<Rightarrow> string" where
  "answer_of r = (case r of Raised \<Rightarrow> [] | Falsy_response \<Rightarrow> [] | Response_text t \<Rightarrow> t)"

text \<open>
  A response body parses when the parser's constructor returns; \<open>normalized\<close> is the
  normalized text of the page parsed from a body that does.
\<close>

definition parses :: "'w env \<Rightarrow> string \<Rightarrow> bool" where
  "parses e body = (html_parser e body \<noteq> None)"

definition normalized :: "'w env \<Rightarrow> string \<Rightarrow> string" where
  "normalized e body =
     (case html_parser e body of None \<Rightarrow> [] | Some doc \<Rightarrow> fst (extract_text doc))"

text \<open>
  Readings of a trace: the addresses requested, the bodies that requests brought back, the
  texts handed to the fact extractor and the answers it gave, the row lists handed to the
  CSV writer, each in order.
\<close>

fun fetched_urls :: "event list \<Rightarrow> string list" where
  "fetched_urls [] = []"
| "fetched_urls (Fetch u r # evs) = u # fetched_urls evs"
| "fetched_urls (_ # evs) = fetched_urls evs"



fun answers :: "event list \<Rightarrow> string list" where
  "answers [] = []"
| "answers (Ask t a # evs) = a # answers evs"
| "answers (_ # evs) = answers evs"












text \<open>
  Elements of a document: \<open>elements\<close> lists all of them, \<open>visible_elements\<close> those that do
  not lie in a \<open>script\<close> or \<open>style\<close> element. \<open>no_link_in_hidden\<close>: no hyperlink with a
  destination lies in a \<open>script\<close> or \<open>style\<close> element.
\<close>

definition hidden_tags :: "string list" where
  "hidden_tags = [''script'', ''style'']"

fun visible_elements :: "node \<Rightarrow> node list" where
  "visible_elements (Text s) = []"
| "visible_elements (Comment s) = []"
| "visible_elements (Tag n attrs kids) =
     (if n \<in> set hidden_tags then []
      else Tag n attrs kids # concat (map visible_elements kids))"

fun elements :: "node \<Rightarrow> node list" where
  "elements (Text s) = []"
| "elements (Comment s) = []"
| "elements (Tag n attrs kids) = Tag n attrs kids # concat (map elements kids)"

fun no_link_in_hidden :: "node \<Rightarrow> bool" where
  "no_link_in_hidden (Text s) = True"
| "no_link_in_hidden (Comment s) = True"
| "no_link_in_hidden (Tag n attrs kids) =
     (if n \<in> set hidden_tags then concat (map find_all_a_href kids) = []
      else list_all no_link_in_hidden kids)"

abbreviation strings_of :: "soup \<Rightarrow> string list" where
  "strings_of doc \<equiv> concat (map all_strings doc)"

definition paren :: "string \<Rightarrow> string" where
  "paren h = ''('' @ h @ '')''"

text \<open>Example documents and an example environment, on which the program is run.\<close>

definition link_doc :: soup where
  "link_doc = [Tag ''a'' [(''href'', ''/x'')] [Text ''text'']]"

definition nested_link :: node where
  "nested_link =
     Tag ''a'' [(''href'', ''/1'')] [Text ''foo'', Tag ''a'' [(''href'', ''/2'')] [Text ''bar'']]"

definition nike :: string where "nike = ''https://www.nike.com''"
definition home_body :: string where
  "home_body = ''<a href=/about>About Nike</a> <script>https://www.nike.com/investors</script>''"
definition home_doc :: soup where
  "home_doc = [Tag ''a'' [(''href'', ''/about'')] [Text ''About Nike''], Text '' '',
               Tag ''script'' [] [Text ''https://www.nike.com/investors'']]"
definition about_body :: string where "about_body = ''<p>HQ: Beaverton</p>''"
definition about_doc :: soup where "about_doc = [Tag ''p'' [] [Text ''HQ: Beaverton'']]"
definition quota_body :: string where "quota_body = ''<p>quota</p>''"
definition quota_doc :: soup where "quota_doc = [Tag ''p'' [] [Text ''quota'']]"


definition demo_env :: "nat env" where
  "demo_env =
     \<lparr>http_get = (\<lambda>u w.
        (if u = ''https://www.nike.com'' then Body home_body
         else if u = ''https://www.nike.com/about'' then Body about_body
         else if u = ''https://www.apple.com'' then Body about_body
         else if u = ''https://www.pfizer.com'' then Body quota_body
         else Request_exception, Suc w)),
      html_parser = (\<lambda>b.
        if b = home_body then Some home_doc
        else if b = about_body then Some about_doc
        else if b = quota_body then Some quota_doc else Some []),
      generate_content = (\<lambda>p w.
        (if str_in ''Beaverton'' p then Response_text ''HQ: Beaverton, Oregon''
         else if str_in ''quota'' p then Raised
         else Response_text ''Information Not Available'', Suc w)),
      urljoin = (\<lambda>b h. Some (b @ h)),
      set_rank = (\<lambda>xs s. if s = ''https://www.nike.com/investors'' then 0 else 1),
      to_csv = (\<lambda>f rows w. (True, Suc w))\<rparr>"


definition demo_start :: "nat state" where
  "demo_start = \<lparr>world = 0, trace = []\<rparr>"

section \<open>The CSV cleaner\<close>

lemma is_space_newline: "is_space (CHR 0x0A)"
  by (simp add: is_space_def)

lemma set_re_sub_ws: "set (re_sub_ws s) \<subseteq> {c \<in> set s. \<not> is_space c} \<union> {CHR '' ''}"
proof (induction s rule: re_sub_ws.induct)
  case 1
  then show ?case by simp
next
  case (2 c cs)
  show ?case
  proof (cases "is_space c")
    case True
    with 2 have "set (re_sub_ws (dropWhile is_space cs))
        \<subseteq> {c \<in> set (dropWhile is_space cs). \<not> is_space c} \<union> {CHR '' ''}"
      by simp
    moreover have "set (dropWhile is_space cs) \<subseteq> set cs"
      by (auto dest: set_dropWhileD)
    ultimately show ?thesis using True by auto
  next
    case False
    with 2 show ?thesis by auto
  qed
qed

lemma re_sub_ws_head:
  "re_sub_ws t = x # xs \<Longrightarrow> t \<noteq> [] \<and> (\<not> is_space (hd t) \<longrightarrow> x = hd t)"
  by (cases t) (auto split: if_splits)

lemma has_ws_run_Cons_nonspace: "\<not> is_space c \<Longrightarrow> has_ws_run (c # r) = has_ws_run r"
  by (cases r) auto

lemma has_ws_run_Cons_before_nonspace:
  "r = [] \<or> \<not> is_space (hd r) \<Longrightarrow> has_ws_run (c # r) = has_ws_run r"
  by (cases r) auto

lemma no_run_re_sub_ws: "\<not> has_ws_run (re_sub_ws s)"
proof (induction s rule: re_sub_ws.induct)
  case 1
  then show ?case by simp
next
  case (2 c cs)
  show ?case
  proof (cases "is_space c")
    case True
    let ?t = "dropWhile is_space cs"
    have "re_sub_ws ?t = [] \<or> \<not> is_space (hd (re_sub_ws ?t))"
    proof (cases "re_sub_ws ?t")
      case Nil
      then show ?thesis by simp
    next
      case (Cons x xs)
      then have "?t \<noteq> []" and "\<not> is_space (hd ?t) \<longrightarrow> x = hd ?t"
        using re_sub_ws_head by blast+
      moreover from \<open>?t \<noteq> []\<close> have "\<not> is_space (hd ?t)" by (rule hd_dropWhile)
      ultimately show ?thesis using Cons by simp
    qed
    with 2 True show ?thesis by (simp add: has_ws_run_Cons_before_nonspace)
  next
    case False
    with 2 show ?thesis by (simp add: has_ws_run_Cons_nonspace)
  qed
qed

lemma re_sub_ws_fixpoint:
  "\<forall>c \<in> set s. is_space c \<longrightarrow> c = CHR '' '' \<Longrightarrow> \<not> has_ws_run s \<Longrightarrow> re_sub_ws s = s"
proof (induction s rule: re_sub_ws.induct)
  case 1
  then show ?case by simp
next
  case (2 c cs)
  show ?case
  proof (cases "is_space c")
    case True
    have drop: "dropWhile is_space cs = cs"
      using "2.prems"(2) True by (cases cs) auto
    have "\<not> has_ws_run cs" using "2.prems"(2) by (cases cs) auto
    with 2 True drop show ?thesis by simp
  next
    case False
    have "\<not> has_ws_run cs" using "2.prems"(2) by (cases cs) auto
    with 2 False show ?thesis by simp
  qed
qed

lemma has_ws_run_iff:
  "has_ws_run s \<longleftrightarrow> (\<exists>xs a b ys. s = xs @ a # b # ys \<and> is_space a \<and> is_space b)"
proof (induction s rule: has_ws_run.induct)
  case (1 a b cs)
  show ?case
  proof
    assume "has_ws_run (a # b # cs)"
    then consider "is_space a \<and> is_space b" | "has_ws_run (b # cs)" by auto
    then show "\<exists>xs a' b' ys. a # b # cs = xs @ a' # b' # ys \<and> is_space a' \<and> is_space b'"
    proof cases
      case 1
      then show ?thesis by (intro exI[of _ "[]"]) auto
    next
      case 2
      with "1.IH" obtain xs a' b' ys
        where "b # cs = xs @ a' # b' # ys" "is_space a'" "is_space b'"
        by blast
      then have "a # b # cs = (a # xs) @ a' # b' # ys \<and> is_space a' \<and> is_space b'" by simp
      then show ?thesis by blast
    qed
  next
    assume "\<exists>xs a' b' ys. a # b # cs = xs @ a' # b' # ys \<and> is_space a' \<and> is_space b'"
    then obtain xs a' b' ys
      where e: "a # b # cs = xs @ a' # b' # ys" and sp: "is_space a'" "is_space b'"
      by blast
    show "has_ws_run (a # b # cs)"
    proof (cases xs)
      case Nil
      with e sp show ?thesis by simp
    next
      case (Cons x xs')
      with e have "b # cs = xs' @ a' # b' # ys" by simp
      with sp "1.IH" have "has_ws_run (b # cs)" by blast
      then show ?thesis by simp
    qed
  qed
qed (auto simp: Cons_eq_append_conv)

lemma strip_decomp: "\<exists>pre post. s = pre @ strip s @ post"
proof -
  let ?u = "dropWhile is_space s"
  have "s = takeWhile is_space s @ ?u" by simp
  moreover have "?u = strip s @ rev (takeWhile is_space (rev ?u))"
  proof -
    have "rev (takeWhile is_space (rev ?u) @ dropWhile is_space (rev ?u)) = rev (rev ?u)"
      by (simp only: takeWhile_dropWhile_id)
    then have "rev (dropWhile is_space (rev ?u)) @ rev (takeWhile is_space (rev ?u)) = ?u"
      by (simp only: rev_append rev_rev_ident)
    then show ?thesis by (simp only: strip_def)
  qed
  ultimately have "s = takeWhile is_space s @ strip s @ rev (takeWhile is_space (rev ?u))"
    by simp
  then show ?thesis by blast
qed

lemma set_strip: "set (strip s) \<subseteq> set s"
proof -
  obtain pre post where "s = pre @ strip s @ post" using strip_decomp by blast
  then have "set s = set pre \<union> set (strip s) \<union> set post" by (metis set_append sup_assoc)
  then show ?thesis by blast
qed

lemma no_run_strip: "\<not> has_ws_run s \<Longrightarrow> \<not> has_ws_run (strip s)"
proof
  assume nr: "\<not> has_ws_run s" and r: "has_ws_run (strip s)"
  obtain pre post where s: "s = pre @ strip s @ post" using strip_decomp by blast
  from r obtain xs a b ys where "strip s = xs @ a # b # ys" "is_space a" "is_space b"
    unfolding has_ws_run_iff by blast
  with s have "s = (pre @ xs) @ a # b # (ys @ post) \<and> is_space a \<and> is_space b" by simp
  then have "has_ws_run s" unfolding has_ws_run_iff by blast
  with nr show False by simp
qed

lemma last_dropWhile_nonempty: "dropWhile P xs \<noteq> [] \<Longrightarrow> last (dropWhile P xs) = last xs"
  by (induction xs) (auto split: if_splits)

lemma strip_ends:
  assumes "strip s \<noteq> []"
  shows "\<not> is_space (hd (strip s))" and "\<not> is_space (last (strip s))"
proof -
  let ?u = "dropWhile is_space s"
  let ?v = "dropWhile is_space (rev ?u)"
  from assms have v: "?v \<noteq> []" by (simp add: strip_def)
  have u: "?u \<noteq> []"
  proof
    assume e: "?u = []"
    have "?v = []" by (simp only: e rev.simps dropWhile.simps)
    with v show False by blast
  qed
  have "last (strip s) = hd ?v" using v by (simp add: strip_def last_rev)
  moreover have "\<not> is_space (hd ?v)" using v by (rule hd_dropWhile)
  ultimately show "\<not> is_space (last (strip s))" by simp
  have "hd (strip s) = last ?v" using v by (simp add: strip_def hd_rev)
  also have "\<dots> = last (rev ?u)" using v by (rule last_dropWhile_nonempty)
  also have "\<dots> = hd ?u" using u by (simp add: last_rev)
  finally have "hd (strip s) = hd ?u" .
  moreover have "\<not> is_space (hd ?u)" using u by (rule hd_dropWhile)
  ultimately show "\<not> is_space (hd (strip s))" by simp
qed

lemma strip_fixpoint:
  assumes "s = [] \<or> (\<not> is_space (hd s) \<and> \<not> is_space (last s))"
  shows "strip s = s"
proof (cases s)
  case Nil
  then show ?thesis by (simp add: strip_def)
next
  case (Cons c cs)
  with assms have h: "\<not> is_space (hd s)" and l: "\<not> is_space (last s)" by auto
  from Cons h have 1: "dropWhile is_space s = s" by simp
  from Cons have ne: "s \<noteq> []" by simp
  have "rev s = rev (butlast s @ [last s])"
    by (simp only: append_butlast_last_id[OF ne])
  then have r: "rev s = last s # rev (butlast s)" by simp
  have "dropWhile is_space (last s # rev (butlast s)) = last s # rev (butlast s)"
    using l by simp
  then have 2: "dropWhile is_space (rev s) = rev s" by (simp only: r)
  show ?thesis by (simp add: strip_def 1 2)
qed

lemma strip_idem: "strip (strip s) = strip s"
  by (rule strip_fixpoint) (use strip_ends in blast)

text \<open>
  Claim C9. The CSV cleaner is idempotent: cleaning a cleaned string gives it back. A
  cleaned string contains no newline, no double quote and no run of whitespace longer
  than one character.
\<close>

theorem clean_text_idempotent:
  "clean_text (clean_text s) = clean_text s
   \<and> CHR 0x0A \<notin> set (clean_text s)
   \<and> CHR 0x22 \<notin> set (clean_text s)
   \<and> \<not> has_ws_run (clean_text s)"
proof -
  let ?u = "replace_char (CHR 0x0A) (CHR '' '') (replace_char (CHR 0x22) (CHR 0x27) s)"
  let ?r = "re_sub_ws ?u"
  let ?c = "clean_text s"
  have c: "?c = strip ?r" by (simp add: clean_text_def)
  have u: "CHR 0x22 \<notin> set ?u" by (auto simp: replace_char_def)
  have sub: "set ?c \<subseteq> {c \<in> set ?u. \<not> is_space c} \<union> {CHR '' ''}"
    using set_strip[of ?r] set_re_sub_ws[of ?u] unfolding c by blast
  have ws: "\<forall>x \<in> set ?c. is_space x \<longrightarrow> x = CHR '' ''" using sub by auto
  have nl: "CHR 0x0A \<notin> set ?c" using ws is_space_newline by auto
  have dq: "CHR 0x22 \<notin> set ?c" using sub u by auto
  have nr: "\<not> has_ws_run ?c" unfolding c by (rule no_run_strip) (rule no_run_re_sub_ws)
  have "replace_char (CHR 0x22) (CHR 0x27) ?c = ?c"
    unfolding replace_char_def using dq by (intro map_idI) auto
  moreover have "replace_char (CHR 0x0A) (CHR '' '') ?c = ?c"
    unfolding replace_char_def using nl by (intro map_idI) auto
  moreover have "re_sub_ws ?c = ?c" using ws nr by (rule re_sub_ws_fixpoint)
  moreover have "strip ?c = ?c" unfolding c by (rule strip_idem)
  ultimately have "clean_text ?c = ?c" by (simp add: clean_text_def)
  with nl dq nr show ?thesis by simp
qed

text \<open>
  The three properties are those of cleaned strings; a string can have them without being
  one: cleaning still trims a blank at the ends and turns a single tab into a blank.
\<close>

lemma clean_text_trims_and_blanks:
  "clean_text '' a'' = ''a'' \<and> clean_text (''a'' @ [CHR 0x09] @ ''b'') = ''a b''"
  by (simp add: clean_text_def replace_char_def strip_def is_space_def)

section \<open>Steps of the program\<close>

lemma call_gemini_api_eq:
  "generate_content e (prompt text) (world st) = (r, w) \<Longrightarrow>
   call_gemini_api e text st =
     (answer_of r, st\<lparr>world := w, trace := trace st @ [Ask text (answer_of r)]\<rparr>)"
  by (cases r) (simp_all add: call_gemini_api_def try_generate_def answer_of_def)




lemma fetch_content_page:
  "http_get e url (world st) = (Body body, w) \<Longrightarrow> html_parser e body = Some doc \<Longrightarrow>
   fetch_content e url st
     = (Inr (Some (doc, findall_urls body)),
        st\<lparr>world := w, trace := trace st @ [Fetch url (Body body)]\<rparr>)"
  by (simp add: fetch_content_def)

lemma parses_normalized:
  assumes "parses e body"
  obtains doc where "html_parser e body = Some doc" and "normalized e body = fst (extract_text doc)"
  using assms by (auto simp: parses_def normalized_def)

lemma no_marker_empty: "\<not> has_marker []"
  by (simp add: has_marker_def str_in_def marker_def)

lemma first_answer_final:
  assumes "http_get e url (world st) = (Body body, w1)"
    and "parses e body"
    and "generate_content e (prompt (normalized e body)) w1 = (r, w2)"
    and "\<not> has_marker (answer_of r)"
  shows "get_company_information e url st
           = (Inr (answer_of r),
              st\<lparr>world := w2,
                 trace := trace st @ [Fetch url (Body body),
                                      Ask (normalized e body) (answer_of r)]\<rparr>)"
proof -
  let ?st1 = "st\<lparr>world := w1, trace := trace st @ [Fetch url (Body body)]\<rparr>"
  let ?t = "normalized e body"
  from assms(2) obtain doc where p: "html_parser e body = Some doc"
    and n: "?t = fst (extract_text doc)" by (rule parses_normalized)
  have f: "fetch_content e url st = (Inr (Some (doc, findall_urls body)), ?st1)"
    using assms(1) p by (rule fetch_content_page)
  have "generate_content e (prompt ?t) (world ?st1) = (r, w2)" using assms(3) by simp
  then have c: "call_gemini_api e ?t ?st1
      = (answer_of r, ?st1\<lparr>world := w2, trace := trace ?st1 @ [Ask ?t (answer_of r)]\<rparr>)"
    by (rule call_gemini_api_eq)
  obtain t0 doc' where x: "extract_text doc = (t0, doc')"
    by (cases "extract_text doc")
  then have t: "?t = t0" by (simp add: n)
  show ?thesis
    using assms(4) c unfolding t by (simp add: get_company_information_def f x)
qed

lemma fallback_loop_stops:
  assumes "http_get e link (world st) = (Body body, w1)"
    and "parses e body"
    and "generate_content e (prompt (t @ [CHR 0x0A] @ normalized e body)) w1 = (r, w2)"
    and "\<not> has_marker (answer_of r)"
  shows "fallback_loop e (link # links) t i st
           = (Inr (answer_of r),
              st\<lparr>world := w2,
                 trace := trace st @ [Fetch link (Body body),
                            Ask (t @ [CHR 0x0A] @ normalized e body) (answer_of r)]\<rparr>)"
proof -
  let ?st1 = "st\<lparr>world := w1, trace := trace st @ [Fetch link (Body body)]\<rparr>"
  let ?t = "t @ [CHR 0x0A] @ normalized e body"
  from assms(2) obtain doc where p: "html_parser e body = Some doc"
    and n: "normalized e body = fst (extract_text doc)" by (rule parses_normalized)
  have f: "fetch_content e link st = (Inr (Some (doc, findall_urls body)), ?st1)"
    using assms(1) p by (rule fetch_content_page)
  have "generate_content e (prompt ?t) (world ?st1) = (r, w2)" using assms(3) by simp
  then have c: "call_gemini_api e ?t ?st1
      = (answer_of r, ?st1\<lparr>world := w2, trace := trace ?st1 @ [Ask ?t (answer_of r)]\<rparr>)"
    by (rule call_gemini_api_eq)
  show ?thesis
    using assms(4) c by (simp add: f n Let_def)
qed


section \<open>Runs on the example environments\<close>





lemma demo_parses: "parses demo_env body"
  by (simp add: parses_def demo_env_def)

lemma demo_normalized_about: "normalized demo_env about_body = ''HQ: Beaverton''"
  by (simp add: normalized_def demo_env_def about_body_def about_doc_def home_body_def
      extract_text_def decompose_all_def inline_links_def get_text_def strip_def is_space_def)

lemma demo_normalized_quota: "normalized demo_env quota_body = ''quota''"
  by (simp add: normalized_def demo_env_def about_body_def quota_body_def quota_doc_def
      home_body_def extract_text_def decompose_all_def inline_links_def get_text_def strip_def
      is_space_def)

lemma demo_answer_about:
  "generate_content demo_env (prompt ''HQ: Beaverton'') w
     = (Response_text ''HQ: Beaverton, Oregon'', Suc w)"
  by (simp add: demo_env_def prompt_def str_in_def sublist_code)

lemma demo_answer_quota: "generate_content demo_env (prompt ''quota'') w = (Raised, Suc w)"
  by (simp add: demo_env_def prompt_def str_in_def sublist_code)

lemma demo_answer_quota_later:
  "generate_content demo_env (prompt (''x'' @ [CHR 0x0A] @ ''quota'')) w = (Raised, Suc w)"
  by (simp add: demo_env_def prompt_def str_in_def sublist_code)



lemma demo_clear_answer: "\<not> has_marker ''HQ: Beaverton, Oregon''"
  by (simp add: has_marker_def marker_def str_in_def sublist_code)


section \<open>Failure of the primary fetch\<close>



section \<open>A first answer free of the marker\<close>

text \<open>
  Claim C2. If the first answer of the fact extractor does not contain the marker
  "Information Not Available" (a literal test, case-sensitive), the orchestrator returns that
  answer; it has made the request for the company's page and exactly one call of the
  extractor, and nothing else.
\<close>

theorem no_marker_no_fallback:
  assumes "http_get e url (world st) = (Body body, w1)"
    and "parses e body"
    and "generate_content e (prompt (normalized e body)) w1 = (r, w2)"
    and "\<not> has_marker (answer_of r)"
  shows "\<exists>st'. get_company_information e url st = (Inr (answer_of r), st')
           \<and> trace st' = trace st @ [Fetch url (Body body), Ask (normalized e body) (answer_of r)]
           \<and> world st' = w2
           \<and> length (answers (drop (length (trace st)) (trace st'))) = 1
           \<and> fetched_urls (drop (length (trace st)) (trace st')) = [url]"
proof -
  let ?st' = "st\<lparr>world := w2,
                 trace := trace st @ [Fetch url (Body body),
                                      Ask (normalized e body) (answer_of r)]\<rparr>"
  have "get_company_information e url st = (Inr (answer_of r), ?st')"
    using assms by (rule first_answer_final)
  moreover have "length (answers (drop (length (trace st)) (trace ?st'))) = 1" by simp
  moreover have "fetched_urls (drop (length (trace st)) (trace ?st')) = [url]" by simp
  ultimately show ?thesis by simp
qed

theorem no_marker_no_fallback_witness:
  "\<exists>st'. get_company_information demo_env ''https://www.apple.com'' demo_start
            = (Inr ''HQ: Beaverton, Oregon'', st')
         \<and> trace st' = [Fetch ''https://www.apple.com'' (Body about_body),
                         Ask ''HQ: Beaverton'' ''HQ: Beaverton, Oregon'']"
proof -
  have h1: "http_get demo_env ''https://www.apple.com'' (world demo_start) = (Body about_body, 1)"
    by (simp add: demo_env_def demo_start_def)
  have h2: "generate_content demo_env (prompt (normalized demo_env about_body)) 1
      = (Response_text ''HQ: Beaverton, Oregon'', 2)"
    by (simp add: demo_normalized_about demo_answer_about)
  have h3: "\<not> has_marker (answer_of (Response_text ''HQ: Beaverton, Oregon''))"
    by (simp add: answer_of_def demo_clear_answer)
  from no_marker_no_fallback[OF h1 demo_parses h2 h3] show ?thesis
    by (auto simp: answer_of_def demo_normalized_about demo_start_def)
qed

section \<open>Failure of the model call\<close>

text \<open>
  Claim C7. Whatever the text, an exception raised by the model call (in the \<open>try\<close> block of
  the fact extractor) is caught there and the extractor returns the empty string; the
  extractor returns a string in every case, so nothing is raised to its caller.
\<close>

theorem model_failure_caught:
  assumes "generate_content e (prompt cleaned_text) (world st) = (Raised, w)"
  shows "try_generate e (prompt cleaned_text) (world st) = (Inl Exception, w)
         \<and> call_gemini_api e cleaned_text st
             = ([], st\<lparr>world := w, trace := trace st @ [Ask cleaned_text []]\<rparr>)"
  using assms by (simp add: call_gemini_api_def try_generate_def)

theorem model_failure_caught_witness:
  "call_gemini_api demo_env ''quota'' demo_start = ([], \<lparr>world = 1, trace = [Ask ''quota'' []]\<rparr>)"
proof -
  have "generate_content demo_env (prompt ''quota'') (world demo_start) = (Raised, 1)"
    by (simp add: demo_answer_quota demo_start_def)
  from model_failure_caught[OF this] show ?thesis
    by (simp add: demo_start_def)
qed

section \<open>An empty answer ends the search\<close>

text \<open>
  Claim C10. The empty string does not contain the marker, so a failed model call counts
  as a satisfactory answer: if the first model call fails, the result is the empty string
  and no fallback page is requested; if a model call fails in the expansion loop, the loop
  stops there with the empty string, whatever links remain.
\<close>

theorem empty_answer_is_final:
  "\<not> has_marker []
   \<and> (http_get e url (world st) = (Body body, w1) \<and> parses e body
        \<and> generate_content e (prompt (normalized e body)) w1 = (Raised, w2)
      \<longrightarrow> get_company_information e url st
            = (Inr [], st\<lparr>world := w2,
                      trace := trace st @ [Fetch url (Body body), Ask (normalized e body) []]\<rparr>))
   \<and> (http_get e link (world st) = (Body body, w1) \<and> parses e body
        \<and> generate_content e (prompt (t @ [CHR 0x0A] @ normalized e body)) w1 = (Raised, w2)
      \<longrightarrow> fallback_loop e (link # links) t i st
            = (Inr [], st\<lparr>world := w2,
                      trace := trace st @ [Fetch link (Body body),
                                 Ask (t @ [CHR 0x0A] @ normalized e body) []]\<rparr>))"
proof -
  have a: "answer_of Raised = []" by (simp add: answer_of_def)
  have n: "\<not> has_marker (answer_of Raised)" unfolding a by (rule no_marker_empty)
  have 1: "get_company_information e url st
            = (Inr [], st\<lparr>world := w2,
                      trace := trace st @ [Fetch url (Body body), Ask (normalized e body) []]\<rparr>)"
    if "http_get e url (world st) = (Body body, w1)" and "parses e body"
      and "generate_content e (prompt (normalized e body)) w1 = (Raised, w2)"
    using first_answer_final[OF that n] unfolding a .
  have 2: "fallback_loop e (link # links) t i st
            = (Inr [], st\<lparr>world := w2,
                      trace := trace st @ [Fetch link (Body body),
                                 Ask (t @ [CHR 0x0A] @ normalized e body) []]\<rparr>)"
    if "http_get e link (world st) = (Body body, w1)" and "parses e body"
      and "generate_content e (prompt (t @ [CHR 0x0A] @ normalized e body)) w1 = (Raised, w2)"
    using fallback_loop_stops[OF that n] unfolding a .
  from 1 2 no_marker_empty show ?thesis by blast
qed

theorem empty_answer_is_final_witness:
  "get_company_information demo_env ''https://www.pfizer.com'' demo_start
     = (Inr [], \<lparr>world = 2,
             trace = [Fetch ''https://www.pfizer.com'' (Body quota_body), Ask ''quota'' []]\<rparr>)
   \<and> fallback_loop demo_env [''https://www.pfizer.com'', ''https://www.nike.com/about'']
        ''x'' ''Information Not Available'' demo_start
     = (Inr [], \<lparr>world = 2,
             trace = [Fetch ''https://www.pfizer.com'' (Body quota_body),
                      Ask (''x'' @ [CHR 0x0A] @ ''quota'') []]\<rparr>)"
proof -
  have h1: "http_get demo_env ''https://www.pfizer.com'' (world demo_start) = (Body quota_body, 1)"
    by (simp add: demo_env_def demo_start_def)
  have h2: "generate_content demo_env (prompt (normalized demo_env quota_body)) 1 = (Raised, 2)"
    by (simp add: demo_normalized_quota demo_answer_quota)
  have h3: "generate_content demo_env
      (prompt (''x'' @ [CHR 0x0A] @ normalized demo_env quota_body)) 1 = (Raised, 2)"
    using demo_answer_quota_later[of 1] by (simp add: demo_normalized_quota)
  from empty_answer_is_final[of demo_env "''https://www.pfizer.com''" demo_start quota_body 1 2
      "''https://www.pfizer.com''" "''x''" "[''https://www.nike.com/about'']"
      "''Information Not Available''"] h1 h2 h3 demo_parses[of quota_body]
  show ?thesis
    by (simp add: demo_normalized_quota demo_start_def)
qed

section \<open>The rows of the batch\<close>



















section \<open>The expansion phase\<close>

















section \<open>The link relevance filter\<close>











section \<open>The text normalizer and the document\<close>

lemma find_all_a_href_insert_after:
  "concat (map find_all_a_href (insert_after_links x)) = find_all_a_href x"
proof (induction x)
  case (Tag n attrs kids)
  have "concat (map find_all_a_href (concat (map insert_after_links kids)))
      = concat (map find_all_a_href kids)"
    using Tag by (induction kids) auto
  then show ?case by (auto split: option.splits)
qed auto

lemma hrefs_inline_links: "hrefs (inline_links doc) = hrefs doc"
  unfolding hrefs_def inline_links_def
  by (induction doc) (auto simp: find_all_a_href_insert_after)

lemma find_all_a_href_remove_tags:
  "no_link_in_hidden x \<Longrightarrow>
   concat (map find_all_a_href (remove_tags hidden_tags x)) = find_all_a_href x"
proof (induction x)
  case (Tag n attrs kids)
  show ?case
  proof (cases "n \<in> set hidden_tags")
    case True
    with Tag.prems show ?thesis by (auto simp: hidden_tags_def)
  next
    case False
    with Tag.prems have "list_all no_link_in_hidden kids" by simp
    with Tag.IH have "concat (map find_all_a_href (concat (map (remove_tags hidden_tags) kids)))
        = concat (map find_all_a_href kids)"
      by (induction kids) auto
    with False show ?thesis by (auto split: option.splits)
  qed
qed auto

lemma hrefs_decompose_all:
  "list_all no_link_in_hidden doc \<Longrightarrow> hrefs (decompose_all hidden_tags doc) = hrefs doc"
  unfolding hrefs_def decompose_all_def
  by (induction doc) (auto simp: find_all_a_href_remove_tags)

lemma snd_extract_text:
  "snd (extract_text doc) = inline_links (decompose_all hidden_tags doc)"
  by (simp add: extract_text_def hidden_tags_def Let_def)

text \<open>
  Claim C6, as the program has it. The text normalizer works on the document it is given,
  not on a copy: the caller's document comes back without its \<open>script\<close> and \<open>style\<close>
  elements and with a string holding the destination behind every hyperlink. It does
  nothing else (it takes and returns no state of the world). The link relevance filter,
  which is the operation that the orchestrator applies to the same document afterwards,
  returns on the document so changed what it returns on the original, provided no hyperlink
  with a destination lies in a \<open>script\<close> or \<open>style\<close> element.
\<close>

theorem normalizer_mutation_unseen_by_filter:
  "snd (extract_text doc) = inline_links (decompose_all hidden_tags doc)
   \<and> (list_all no_link_in_hidden doc \<longrightarrow>
        hrefs (snd (extract_text doc)) = hrefs doc
        \<and> extract_relevant_links e (snd (extract_text doc)) js_links base_url url
            = extract_relevant_links e doc js_links base_url url)"
proof -
  have "list_all no_link_in_hidden doc \<Longrightarrow> hrefs (snd (extract_text doc)) = hrefs doc"
    by (simp add: snd_extract_text hrefs_inline_links hrefs_decompose_all)
  then show ?thesis
    by (auto simp: snd_extract_text extract_relevant_links_def)
qed

theorem normalizer_mutation_unseen_by_filter_witness:
  "list_all no_link_in_hidden home_doc
   \<and> extract_relevant_links demo_env (snd (extract_text home_doc))
         [''https://www.nike.com/investors''] nike nike
       = extract_relevant_links demo_env home_doc [''https://www.nike.com/investors''] nike nike"
proof -
  have h: "list_all no_link_in_hidden home_doc"
    by (simp add: home_doc_def hidden_tags_def)
  with normalizer_mutation_unseen_by_filter[of home_doc demo_env
      "[''https://www.nike.com/investors'']" nike nike]
  show ?thesis by blast
qed

text \<open>
  Claim C6, as stated, fails: the document that the normalizer leaves is not the document
  it was given, and normalizing the same document once more gives another text.
\<close>

theorem normalizer_mutates_document:
  "snd (extract_text link_doc) \<noteq> link_doc
   \<and> fst (extract_text link_doc) = ''text (/x)''
   \<and> fst (extract_text (snd (extract_text link_doc))) = ''text (/x) (/x)''"
  by (simp add: link_doc_def extract_text_def decompose_all_def inline_links_def get_text_def
      strip_def is_space_def)

section \<open>Hyperlink destinations in the normalized text\<close>

lemma strip_paren: "strip ('' ('' @ h @ '')'') = paren h"
  by (simp add: strip_def paren_def is_space_def)

lemma all_strings_inserted: "all_strings (Text ('' ('' @ h @ '')'')) = [paren h]"
  by (simp only: all_strings.simps strip_paren) (simp add: paren_def)

lemma all_strings_inserted': "all_strings (Text (CHR '' '' # CHR ''('' # h @ '')'')) = [paren h]"
  using all_strings_inserted[of h] by simp

lemma visible_element_survives:
  "Tag n attrs kids \<in> set (visible_elements x) \<Longrightarrow>
   Tag n attrs (decompose_all hidden_tags kids)
     \<in> set (concat (map elements (remove_tags hidden_tags x)))"
proof (induction x)
  case (Tag m bs cs)
  from Tag.prems have vis: "m \<notin> set hidden_tags" by (auto split: if_splits)
  from Tag.prems vis consider "Tag n attrs kids = Tag m bs cs"
    | c where "c \<in> set cs" "Tag n attrs kids \<in> set (visible_elements c)"
    by auto
  then show ?case
  proof cases
    case 1
    with vis show ?thesis by (simp add: decompose_all_def)
  next
    case 2
    with Tag.IH have "Tag n attrs (decompose_all hidden_tags kids)
        \<in> set (concat (map elements (remove_tags hidden_tags c)))" by blast
    with 2(1) have "Tag n attrs (decompose_all hidden_tags kids)
        \<in> set (concat (map elements (concat (map (remove_tags hidden_tags) cs))))"
      by auto
    with vis show ?thesis by simp
  qed
qed auto

lemma strings_of_split:
  assumes "c \<in> set cs"
  shows "\<exists>A B. strings_of (inline_links cs) = A @ strings_of (insert_after_links c) @ B"
proof -
  from assms obtain cs1 cs2 where "cs = cs1 @ c # cs2" by (auto dest: split_list)
  then have "strings_of (inline_links cs)
      = strings_of (inline_links cs1) @ strings_of (insert_after_links c)
        @ strings_of (inline_links cs2)"
    by (simp add: inline_links_def)
  then show ?thesis by blast
qed

lemma element_strings:
  "Tag ''a'' attrs kids \<in> set (elements x) \<Longrightarrow> map_of attrs ''href'' = Some h \<Longrightarrow>
   \<exists>pre post. strings_of (insert_after_links x)
      = pre @ strings_of (inline_links kids) @ [paren h] @ post"
proof (induction x)
  case (Tag m bs cs)
  let ?tail = "case (if m = ''a'' then map_of bs ''href'' else None) of
                 None \<Rightarrow> [] | Some h' \<Rightarrow> [paren h']"
  have whole: "strings_of (insert_after_links (Tag m bs cs))
      = strings_of (inline_links cs) @ ?tail"
    by (simp add: inline_links_def all_strings_inserted' split: option.splits
        del: all_strings.simps(1))
  from Tag.prems(1) consider "Tag ''a'' attrs kids = Tag m bs cs"
    | c where "c \<in> set cs" "Tag ''a'' attrs kids \<in> set (elements c)"
    by auto
  then show ?case
  proof cases
    case 1
    with Tag.prems(2) have "?tail = [paren h]" by simp
    with whole 1 have "strings_of (insert_after_links (Tag m bs cs))
        = [] @ strings_of (inline_links kids) @ [paren h] @ []" by simp
    then show ?thesis by blast
  next
    case 2
    with Tag.IH Tag.prems(2) obtain pre post where
      "strings_of (insert_after_links c) = pre @ strings_of (inline_links kids) @ [paren h] @ post"
      by blast
    moreover from 2(1) obtain A B where
      "strings_of (inline_links cs) = A @ strings_of (insert_after_links c) @ B"
      using strings_of_split by blast
    ultimately have "strings_of (insert_after_links (Tag m bs cs))
        = (A @ pre) @ strings_of (inline_links kids) @ [paren h] @ (post @ B @ ?tail)"
      using whole by simp
    then show ?thesis by blast
  qed
qed auto

lemma forest_strings:
  assumes "Tag ''a'' attrs kids \<in> set (concat (map elements doc))"
    and "map_of attrs ''href'' = Some h"
  shows "\<exists>pre post. strings_of (inline_links doc)
      = pre @ strings_of (inline_links kids) @ [paren h] @ post"
proof -
  from assms(1) obtain x where x: "x \<in> set doc" "Tag ''a'' attrs kids \<in> set (elements x)"
    by auto
  with assms(2) obtain pre post where
    "strings_of (insert_after_links x) = pre @ strings_of (inline_links kids) @ [paren h] @ post"
    using element_strings by blast
  moreover from x(1) obtain A B where
    "strings_of (inline_links doc) = A @ strings_of (insert_after_links x) @ B"
    using strings_of_split by blast
  ultimately have "strings_of (inline_links doc)
      = (A @ pre) @ strings_of (inline_links kids) @ [paren h] @ (post @ B)"
    by simp
  then show ?thesis by blast
qed

lemma insert_after_links_id: "find_all_a_href x = [] \<Longrightarrow> insert_after_links x = [x]"
proof (induction x)
  case (Tag n attrs kids)
  from Tag.prems have none: "(if n = ''a'' then map_of attrs ''href'' else None) = None"
    and kids: "concat (map find_all_a_href kids) = []"
    by (auto split: option.splits if_splits)
  from kids Tag.IH have "concat (map insert_after_links kids) = kids"
    by (induction kids) auto
  with none show ?case by simp
qed auto

lemma inline_links_id: "hrefs doc = [] \<Longrightarrow> inline_links doc = doc"
  unfolding hrefs_def inline_links_def
  by (induction doc) (auto simp: insert_after_links_id)

lemma join_blank_append:
  "xs \<noteq> [] \<Longrightarrow> ys \<noteq> [] \<Longrightarrow> join_blank (xs @ ys) = join_blank xs @ '' '' @ join_blank ys"
proof (induction xs rule: join_blank.induct)
  case (2 x)
  then show ?case by (cases ys) auto
qed auto

lemma sublist_join_blank:
  assumes "mid \<noteq> []"
  shows "sublist (join_blank mid) (join_blank (pre @ mid @ post))"
proof -
  have right: "sublist (join_blank mid) (join_blank (mid @ post))"
  proof (cases "post = []")
    case True
    then show ?thesis by simp
  next
    case False
    with assms have "join_blank (mid @ post) = [] @ join_blank mid @ ('' '' @ join_blank post)"
      by (simp add: join_blank_append)
    then show ?thesis unfolding sublist_def by blast
  qed
  show ?thesis
  proof (cases "pre = []")
    case True
    with right show ?thesis by simp
  next
    case False
    from assms have "mid @ post \<noteq> []" by simp
    with False have "join_blank (pre @ mid @ post)
        = (join_blank pre @ '' '') @ join_blank (mid @ post)"
      by (simp add: join_blank_append)
    with right show ?thesis by (simp add: sublist_append del: append_assoc)
  qed
qed

text \<open>
  Claim C8, as the program has it. For every document and every hyperlink element in it that
  lies outside \<open>script\<close> and \<open>style\<close> elements, has a destination, has visible text, and has
  no hyperlink with a destination nested in it, the normalized text contains the visible
  text of the link, one blank, and the destination in parentheses, in that order and with
  nothing in between.
\<close>

theorem link_destination_follows_text:
  assumes "Tag ''a'' attrs kids \<in> set (concat (map visible_elements doc))"
    and "map_of attrs ''href'' = Some h"
    and "hrefs (decompose_all hidden_tags kids) = []"
    and "get_text (decompose_all hidden_tags kids) \<noteq> []"
  shows "str_in (get_text (decompose_all hidden_tags kids) @ '' ('' @ h @ '')'')
           (fst (extract_text doc))"
proof -
  let ?kids = "decompose_all hidden_tags kids"
  let ?doc = "decompose_all hidden_tags doc"
  from assms(1) obtain x where "x \<in> set doc" "Tag ''a'' attrs kids \<in> set (visible_elements x)"
    by auto
  then have "Tag ''a'' attrs ?kids \<in> set (concat (map elements ?doc))"
    using visible_element_survives[of "''a''" attrs kids x] by (auto simp: decompose_all_def)
  with assms(2) obtain pre post where
    "strings_of (inline_links ?doc) = pre @ strings_of (inline_links ?kids) @ [paren h] @ post"
    using forest_strings by blast
  with assms(3) have s: "strings_of (inline_links ?doc)
      = pre @ (strings_of ?kids @ [paren h]) @ post"
    by (simp add: inline_links_id)
  have ne: "strings_of ?kids \<noteq> []"
  proof
    assume "strings_of ?kids = []"
    then have "get_text ?kids = []" by (simp only: get_text_def join_blank.simps)
    with assms(4) show False by simp
  qed
  then have "join_blank (strings_of ?kids @ [paren h]) = get_text ?kids @ '' ('' @ h @ '')''"
    by (simp add: join_blank_append get_text_def paren_def)
  moreover have "sublist (join_blank (strings_of ?kids @ [paren h]))
      (join_blank (pre @ (strings_of ?kids @ [paren h]) @ post))"
    by (rule sublist_join_blank) simp
  ultimately have "sublist (get_text ?kids @ '' ('' @ h @ '')'')
      (join_blank (strings_of (inline_links ?doc)))"
    using s by simp
  then show ?thesis
    by (simp add: str_in_def extract_text_def get_text_def hidden_tags_def Let_def)
qed

theorem link_destination_follows_text_witness:
  "str_in ''text (/x)'' (fst (extract_text link_doc))"
  using link_destination_follows_text[of "[(''href'', ''/x'')]" "[Text ''text'']" link_doc "''/x''"]
  by (simp add: link_doc_def hidden_tags_def decompose_all_def hrefs_def get_text_def strip_def
      is_space_def)

text \<open>
  Claim C8, as stated, fails for a hyperlink that contains another one: the destination of
  the inner link comes between the visible text of the outer link and the destination of
  the outer link.
\<close>

theorem nested_link_destination_apart:
  "nested_link \<in> set (concat (map visible_elements [nested_link]))
   \<and> get_text (decompose_all hidden_tags
         [Text ''foo'', Tag ''a'' [(''href'', ''/2'')] [Text ''bar'']]) = ''foo bar''
   \<and> fst (extract_text [nested_link]) = ''foo bar (/2) (/1)''
   \<and> \<not> str_in ''foo bar (/1)'' (fst (extract_text [nested_link]))"
  by (simp add: nested_link_def extract_text_def decompose_all_def inline_links_def get_text_def
      strip_def is_space_def hidden_tags_def str_in_def sublist_code)

end
